theory Spec2Isabelle
  imports Main "HOL-Library.Word"
begin

unbundle bit_operations_syntax

section \<open>The ring buffer of main.c\<close>

text \<open>
  The transmit buffer of the demo is three globals: the array \<open>txbuf[BUF_LEN]\<close> and
  the two \<open>uint32_t\<close> indices \<open>tx_r\<close> and \<open>tx_w\<close>. They are modelled as one record
  that every function takes and returns. The indices are 32-bit words, so that
  \<open>i+1\<close> wraps as it does in C.
\<close>

type_synonym uint8_t = "8 word"
type_synonym uint32_t = "32 word"
type_synonym c_int = "32 word"

definition BUF_LEN :: nat where
  "BUF_LEN = 32"

definition NEXT_PLACE :: "uint32_t \<Rightarrow> uint32_t" where
  "NEXT_PLACE i = (i + 1) AND 0x1F"

record ring =
  txbuf :: "uint8_t list"
  tx_r :: uint32_t
  tx_w :: uint32_t

text \<open>The globals as the C start-up code leaves them: a zeroed array, both indices 0.\<close>

definition ring_init :: ring where
  "ring_init = \<lparr>txbuf = replicate BUF_LEN 0, tx_r = 0, tx_w = 0\<rparr>"

definition is_txbuf_empty :: "ring \<Rightarrow> bool" where
  "is_txbuf_empty s = (tx_r s = tx_w s)"

definition is_txbuf_full :: "ring \<Rightarrow> bool" where
  "is_txbuf_full s = (NEXT_PLACE (tx_w s) = tx_r s)"

text \<open>
  An index beyond the array is undefined behaviour in C. The model makes it a value:
  \<open>txbuf_put\<close> and \<open>txbuf_get\<close> return \<open>Inl OutOfBounds\<close> instead of touching a cell
  that does not exist. The return codes are the C ones, \<open>-1\<close> and \<open>0\<close>.
\<close>

datatype fault = OutOfBounds

definition txbuf_put :: "uint8_t \<Rightarrow> ring \<Rightarrow> fault + (int \<times> ring)" where
  "txbuf_put val s =
     (if is_txbuf_full s then Inr (- 1, s)
      else if unat (tx_w s) < length (txbuf s)
      then Inr (0, s\<lparr>txbuf := (txbuf s)[unat (tx_w s) := val], tx_w := NEXT_PLACE (tx_w s)\<rparr>)
      else Inl OutOfBounds)"

text \<open>
  \<open>txbuf_get\<close> writes through the pointer \<open>pval\<close>. The model takes the value the
  pointee has before the call and returns the value it has after it.
\<close>

definition txbuf_get :: "uint8_t \<Rightarrow> ring \<Rightarrow> fault + (int \<times> uint8_t \<times> ring)" where
  "txbuf_get pval s =
     (if is_txbuf_empty s then Inr (- 1, pval, s)
      else if unat (tx_r s) < length (txbuf s)
      then Inr (0, txbuf s ! unat (tx_r s), s\<lparr>tx_r := NEXT_PLACE (tx_r s)\<rparr>)
      else Inl OutOfBounds)"

subsection \<open>Sequences of calls\<close>

text \<open>
  A caller is a list of calls run in order on the buffer; the run records what every call
  returned. A fault ends the run.
\<close>

datatype op = Put uint8_t | Get

datatype res = PutRet uint8_t int | GetRet int uint8_t

fun run_ops :: "op list \<Rightarrow> uint8_t \<times> ring \<Rightarrow> fault + (res list \<times> uint8_t \<times> ring)" where
  "run_ops [] (c, s) = Inr ([], c, s)"
| "run_ops (Put v # ops) (c, s) =
     (case txbuf_put v s of
        Inl f \<Rightarrow> Inl f
      | Inr (rc, s') \<Rightarrow>
          (case run_ops ops (c, s') of
             Inl f \<Rightarrow> Inl f
           | Inr (log, c'', s'') \<Rightarrow> Inr (PutRet v rc # log, c'', s'')))"
| "run_ops (Get # ops) (c, s) =
     (case txbuf_get c s of
        Inl f \<Rightarrow> Inl f
      | Inr (rc, c', s') \<Rightarrow>
          (case run_ops ops (c', s') of
             Inl f \<Rightarrow> Inl f
           | Inr (log, c'', s'') \<Rightarrow> Inr (GetRet rc c' # log, c'', s'')))"

text \<open>
  The bytes handed to \<open>txbuf_put\<close>, the bytes of the puts that succeeded, and the bytes
  the successful gets returned.
\<close>

fun put_args :: "op list \<Rightarrow> uint8_t list" where
  "put_args [] = []"
| "put_args (Put v # ops) = v # put_args ops"
| "put_args (Get # ops) = put_args ops"

fun put_bytes :: "res list \<Rightarrow> uint8_t list" where
  "put_bytes [] = []"
| "put_bytes (PutRet v rc # log) = (if rc = 0 then v # put_bytes log else put_bytes log)"
| "put_bytes (GetRet rc c # log) = put_bytes log"

fun got_bytes :: "res list \<Rightarrow> uint8_t list" where
  "got_bytes [] = []"
| "got_bytes (PutRet v rc # log) = got_bytes log"
| "got_bytes (GetRet rc c # log) = (if rc = 0 then c # got_bytes log else got_bytes log)"

fun puts_succeed :: "res list \<Rightarrow> bool" where
  "puts_succeed [] = True"
| "puts_succeed (PutRet v rc # log) = (rc = 0 \<and> puts_succeed log)"
| "puts_succeed (GetRet rc c # log) = puts_succeed log"

subsection \<open>Well-formed states and the queue a state stands for\<close>

definition ring_ok :: "ring \<Rightarrow> bool" where
  "ring_ok s = (length (txbuf s) = BUF_LEN \<and> unat (tx_r s) < BUF_LEN \<and> unat (tx_w s) < BUF_LEN)"

definition pending :: "ring \<Rightarrow> nat" where
  "pending s = (unat (tx_w s) + BUF_LEN - unat (tx_r s)) mod BUF_LEN"

definition contents :: "ring \<Rightarrow> uint8_t list" where
  "contents s = map (\<lambda>k. txbuf s ! ((unat (tx_r s) + k) mod BUF_LEN)) [0..<pending s]"

section \<open>The tasks of main.c\<close>

text \<open>
  The tasks talk to FreeRTOS and to the serial line. What they do there is recorded, call
  by call and in program order, in a trace that is part of the state they run on next to
  the ring buffer and the binary semaphore.
\<close>

datatype task_fn = vSenderTask | vReceiverTask

datatype call =
    Call_prvSetupHardware
  | Call_xSemaphoreCreateBinary
  | Call_xTaskCreate task_fn string nat nat
  | Call_vTaskStartScheduler
  | Call_txbuf_put uint8_t int
  | Call_txbuf_get int
  | Call_xSemaphoreGive bool
  | Call_printf string "int list"
  | Call_vTaskDelay nat

subsection \<open>main\<close>

text \<open>
  \<open>main\<close> is a function of the handle that \<open>xSemaphoreCreateBinary\<close> returns (\<open>NULL\<close>
  is 0). Its result is the list of the calls it makes. \<open>xTaskCreate\<close> is recorded with
  the task function, the task name, the stack depth and the priority; in FreeRTOS a larger
  number is a higher priority. When the scheduler starts, control does not come back under
  normal operation; the closing \<open>return 0\<close> makes no call.
\<close>

definition NULL :: uint32_t where
  "NULL = 0"

definition main :: "uint32_t \<Rightarrow> call list" where
  "main xBinarySemaphore =
     [Call_prvSetupHardware, Call_xSemaphoreCreateBinary] @
     (if xBinarySemaphore \<noteq> NULL
      then [Call_xTaskCreate vSenderTask ''Sender'' 1000 2,
            Call_xTaskCreate vReceiverTask ''Receiver'' 1000 1,
            Call_vTaskStartScheduler]
      else [])"

text \<open>The priority a task function is created with, if \<open>main\<close> creates it at all.\<close>

fun priority_of :: "task_fn \<Rightarrow> call list \<Rightarrow> nat option" where
  "priority_of t [] = None"
| "priority_of t (Call_xTaskCreate t' name depth prio # cs) =
     (if t' = t then Some prio else priority_of t cs)"
| "priority_of t (c # cs) = priority_of t cs"

fun is_task_create :: "call \<Rightarrow> bool" where
  "is_task_create (Call_xTaskCreate t name depth prio) = True"
| "is_task_create c = False"

subsection \<open>The semaphore\<close>

text \<open>
  Modelled from the spec: \<open>xSemaphoreGive\<close> is FreeRTOS code that is not part of
  main.c. The binary signal has the two states Unsignaled (\<open>False\<close>) and Signaled
  (\<open>True\<close>): a give on an unsignaled channel signals it and succeeds (\<open>pdTRUE\<close>), a
  give on a signaled channel leaves it signaled and reports the soft failure. The result
  is the pair of "returned \<open>pdTRUE\<close>" and the new state.
\<close>

definition xSemaphoreGive :: "bool \<Rightarrow> bool \<times> bool" where
  "xSemaphoreGive signaled = (if signaled then (False, True) else (True, True))"

subsection \<open>The state the tasks share\<close>

record world =
  buf :: ring
  sem :: bool
  trace :: "call list"

text \<open>
  The state when the scheduler starts: the buffer as initialised, the semaphore as
  \<open>xSemaphoreCreateBinary\<close> creates it (not signaled), nothing done yet.
\<close>

definition world_init :: world where
  "world_init = \<lparr>buf = ring_init, sem = False, trace = []\<rparr>"

subsection \<open>vSenderTask\<close>

text \<open>
  The locals of the sender that live across iterations. They are C \<open>int\<close>s: 32-bit
  words read as two's complement (\<open>sint\<close>), on which \<open>++\<close> wraps as it does on the
  Cortex-M3 target (in ISO C the overflow is undefined). \<open>'a'\<close> is 97, and passing
  \<open>'a'+cnt_tx\<close> to the \<open>unsigned char\<close> parameter of \<open>txbuf_put\<close> keeps its low
  8 bits.
\<close>

record sender =
  cnt_tx :: c_int
  cnt_ok :: c_int
  cnt_err :: c_int

definition sender_init :: sender where
  "sender_init = \<lparr>cnt_tx = 0, cnt_ok = 0, cnt_err = 0\<rparr>"

text \<open>The byte the sender passes to \<open>txbuf_put\<close>: \<open>'a'+cnt_tx\<close>, as an unsigned char.\<close>

definition sender_byte :: "sender \<Rightarrow> uint8_t" where
  "sender_byte l = ucast (97 + cnt_tx l)"

text \<open>One pass through the body of \<open>for (i = 0; i < 3; i++)\<close>.\<close>

definition sender_body :: "world \<times> sender \<Rightarrow> fault + (world \<times> sender)" where
  "sender_body st =
     (case st of (w, l) \<Rightarrow>
        (case txbuf_put (sender_byte l) (buf w) of
           Inl f \<Rightarrow> Inl f
         | Inr (rc, b') \<Rightarrow>
             (case xSemaphoreGive (sem w) of (given, sem') \<Rightarrow>
                (let tr = trace w @ [Call_txbuf_put (sender_byte l) rc, Call_xSemaphoreGive given];
                     l' = l\<lparr>cnt_tx := cnt_tx l + 1\<rparr>
                 in if given
                    then Inr (w\<lparr>buf := b', sem := sem',
                                trace := tr @ [Call_printf (''Give BinarySemaphore %d time: OK'' @ [CHR 0x0D, CHR 0x0A]) [sint (cnt_ok l)]]\<rparr>,
                              l'\<lparr>cnt_ok := cnt_ok l + 1\<rparr>)
                    else Inr (w\<lparr>buf := b', sem := sem',
                                trace := tr @ [Call_printf (''Give BinarySemaphore %d time: ERR'' @ [CHR 0x0D, CHR 0x0A]) [sint (cnt_err l)]]\<rparr>,
                              l'\<lparr>cnt_err := cnt_err l + 1\<rparr>)))))"

function sender_for :: "int \<Rightarrow> world \<times> sender \<Rightarrow> fault + (world \<times> sender)" where
  "sender_for i st =
     (if i < 3
      then (case sender_body st of Inl f \<Rightarrow> Inl f | Inr st' \<Rightarrow> sender_for (i + 1) st')
      else Inr st)"
  by pat_completeness auto
termination
  by (relation "measure (\<lambda>(i, st). nat (3 - i))") auto

text \<open>
  One cycle of the endless loop: the batch of three, then \<open>vTaskDelay(xTicksToWait)\<close>.
  The tick count \<open>pdMS_TO_TICKS(10UL)\<close> depends on the FreeRTOS configuration and is a
  parameter.
\<close>

definition sender_cycle :: "nat \<Rightarrow> world \<times> sender \<Rightarrow> fault + (world \<times> sender)" where
  "sender_cycle xTicksToWait st =
     (case sender_for 0 st of
        Inl f \<Rightarrow> Inl f
      | Inr (w, l) \<Rightarrow> Inr (w\<lparr>trace := trace w @ [Call_vTaskDelay xTicksToWait]\<rparr>, l))"

text \<open>The loop \<open>for (;;)\<close> never ends; \<open>sender_cycles n\<close> is what its first \<open>n\<close> cycles do.\<close>

fun sender_cycles :: "nat \<Rightarrow> nat \<Rightarrow> world \<times> sender \<Rightarrow> fault + (world \<times> sender)" where
  "sender_cycles xTicksToWait 0 st = Inr st"
| "sender_cycles xTicksToWait (Suc n) st =
     (case sender_cycle xTicksToWait st of
        Inl f \<Rightarrow> Inl f
      | Inr st' \<Rightarrow> sender_cycles xTicksToWait n st')"

text \<open>The bytes handed to \<open>txbuf_put\<close> in a trace, in order.\<close>

fun put_attempts :: "call list \<Rightarrow> uint8_t list" where
  "put_attempts [] = []"
| "put_attempts (Call_txbuf_put v rc # cs) = v # put_attempts cs"
| "put_attempts (c # cs) = put_attempts cs"

definition sender_attempts :: "nat \<Rightarrow> nat \<Rightarrow> world \<times> sender \<Rightarrow> uint8_t list" where
  "sender_attempts xTicksToWait n st =
     (case sender_cycles xTicksToWait n st of
        Inl f \<Rightarrow> []
      | Inr (w, l) \<Rightarrow> put_attempts (trace w))"

text \<open>
  What "printable" means for a byte: the printable characters of the C library
  (\<open>isprint\<close> in the "C" locale), the space and the graphic characters, 0x20 to 0x7E.
  The receiver prints every byte it gets with \<open>%c\<close>.
\<close>

definition isprint :: "uint8_t \<Rightarrow> bool" where
  "isprint b = (0x20 \<le> b \<and> b \<le> 0x7E)"

text \<open>Every \<open>txbuf_put\<close> in the trace has \<open>xSemaphoreGive\<close> as the very next call.\<close>

fun give_follows_put :: "call list \<Rightarrow> bool" where
  "give_follows_put [] = True"
| "give_follows_put (Call_txbuf_put v rc # Call_xSemaphoreGive g # cs) = give_follows_put cs"
| "give_follows_put (Call_txbuf_put v rc # cs) = False"
| "give_follows_put (c # cs) = give_follows_put cs"

subsection \<open>vReceiverTask\<close>

text \<open>
  The drain loop \<open>while (txbuf_get(&c) == 0) printf("%c", c);\<close>. Nothing in the loop
  bounds the number of passes, so the model is a partial function: \<open>None\<close> is a loop
  that never leaves.
\<close>

partial_function (option) drain :: "uint8_t \<Rightarrow> world \<Rightarrow> (fault + (uint8_t \<times> world)) option" where
  "drain c w =
     (case txbuf_get c (buf w) of
        Inl f \<Rightarrow> Some (Inl f)
      | Inr (rc, c', b') \<Rightarrow>
          (if rc = 0
           then drain c' (w\<lparr>buf := b', trace := trace w @ [Call_txbuf_get rc, Call_printf ''%c'' [uint c']]\<rparr>)
           else Some (Inr (c', w\<lparr>buf := b', trace := trace w @ [Call_txbuf_get rc]\<rparr>))))"

text \<open>
  What the receiver does once \<open>xSemaphoreTake\<close> has returned \<open>pdTRUE\<close>: the header
  line, the drain loop, the line end. Its locals are the byte \<open>c\<close> and the counter
  \<open>cnt_ok\<close> (here \<open>rx_cnt_ok\<close>, the sender has a \<open>cnt_ok\<close> of its own).
\<close>

definition receiver_taken :: "uint8_t \<times> c_int \<Rightarrow> world \<Rightarrow> (fault + ((uint8_t \<times> c_int) \<times> world)) option" where
  "receiver_taken l w =
     (case l of (c, rx_cnt_ok) \<Rightarrow>
        (case drain c (w\<lparr>trace := trace w @ [Call_printf ''Get BinarySemaphore OK: %d, data: '' [sint rx_cnt_ok]]\<rparr>) of
           None \<Rightarrow> None
         | Some (Inl f) \<Rightarrow> Some (Inl f)
         | Some (Inr (c', w')) \<Rightarrow>
             Some (Inr ((c', rx_cnt_ok + 1), w'\<lparr>trace := trace w' @ [Call_printf [CHR 0x0D, CHR 0x0A] []]\<rparr>))))"

section \<open>Index arithmetic\<close>

lemma unat_NEXT_PLACE: "unat (NEXT_PLACE i) = Suc (unat i) mod 32"
proof -
  have "(i + 1) AND 0x1F = (i + 1) AND mask 5" by (simp add: mask_eq_exp_minus_1)
  also have "\<dots> = take_bit 5 (i + 1)" by (simp add: take_bit_eq_mask)
  finally have e: "NEXT_PLACE i = take_bit 5 (i + 1)" by (simp add: NEXT_PLACE_def)
  have "unat (NEXT_PLACE i) = unat (i + 1) mod 32"
    unfolding e by (simp add: unsigned_take_bit_eq take_bit_eq_mod unat_mod)
  also have "\<dots> = ((unat i + 1) mod 2 ^ 32) mod 32" by (simp add: unat_word_ariths)
  also have "\<dots> = (unat i + 1) mod 32" by (simp add: mod_mod_cancel)
  finally show ?thesis by simp
qed

lemma pend_cases:
  fixes r w :: nat
  assumes "r < 32" "w < 32"
  shows "(w + 32 - r) mod 32 = (if r \<le> w then w - r else w + 32 - r)"
proof (cases "r \<le> w")
  case True
  obtain d where d: "w = r + d" using True by (auto simp: le_iff_add)
  have "d < 32" using assms d by simp
  then show ?thesis using d by simp
next
  case False
  with assms show ?thesis by simp
qed

lemma succ_mod_cases:
  fixes w :: nat
  assumes "w < 32"
  shows "Suc w mod 32 = (if w = 31 then 0 else Suc w)"
  using assms by (simp add: mod_if)

lemma add_mod_cases:
  fixes r k :: nat
  assumes "r < 32" "k < 32"
  shows "(r + k) mod 32 = (if r + k < 32 then r + k else r + k - 32)"
  using assms by (simp add: mod_if)

lemma pend_reaches_w:
  fixes r w :: nat
  assumes "r < 32" "w < 32"
  shows "(r + (w + 32 - r) mod 32) mod 32 = w"
proof -
  have "(w + 32 - r) mod 32 < 32" by simp
  then show ?thesis using assms
    by (simp add: add_mod_cases pend_cases)
qed

lemma add_mod_inj:
  fixes r k k' :: nat
  assumes "r < 32" "k < 32" "k' < 32" "(r + k) mod 32 = (r + k') mod 32"
  shows "k = k'"
  using assms by (simp add: add_mod_cases split: if_splits)

lemma pend_after_put:
  fixes r w :: nat
  assumes "r < 32" "w < 32" "Suc w mod 32 \<noteq> r"
  shows "(Suc w mod 32 + 32 - r) mod 32 = Suc ((w + 32 - r) mod 32)"
proof -
  have "Suc w mod 32 < 32" by simp
  then have "(Suc w mod 32 + 32 - r) mod 32 =
      (if r \<le> Suc w mod 32 then Suc w mod 32 - r else Suc w mod 32 + 32 - r)"
    using assms(1) by (rule pend_cases[rotated])
  then show ?thesis using assms
    by (auto simp: pend_cases succ_mod_cases split: if_splits)
qed

lemma pend_after_get:
  fixes r w :: nat
  assumes "r < 32" "w < 32" "r \<noteq> w"
  shows "(w + 32 - Suc r mod 32) mod 32 = (w + 32 - r) mod 32 - 1"
proof -
  have "Suc r mod 32 < 32" by simp
  then have "(w + 32 - Suc r mod 32) mod 32 =
      (if Suc r mod 32 \<le> w then w - Suc r mod 32 else w + 32 - Suc r mod 32)"
    using assms(2) by (rule pend_cases)
  then show ?thesis using assms
    by (auto simp: pend_cases succ_mod_cases split: if_splits)
qed

lemma pend_zero_iff:
  fixes r w :: nat
  assumes "r < 32" "w < 32"
  shows "(w + 32 - r) mod 32 = 0 \<longleftrightarrow> r = w"
  using assms by (auto simp: pend_cases)

lemma pend_31_iff:
  fixes r w :: nat
  assumes "r < 32" "w < 32"
  shows "(w + 32 - r) mod 32 = 31 \<longleftrightarrow> Suc w mod 32 = r"
  using assms by (auto simp: pend_cases succ_mod_cases)

section \<open>The buffer as a queue\<close>

lemma ring_okD:
  "ring_ok s \<Longrightarrow> length (txbuf s) = 32 \<and> unat (tx_r s) < 32 \<and> unat (tx_w s) < 32"
  by (simp add: ring_ok_def BUF_LEN_def)

lemma ring_ok_init: "ring_ok ring_init"
  by (simp add: ring_ok_def ring_init_def BUF_LEN_def)

lemma pending_less: "pending s < 32"
  by (simp add: pending_def BUF_LEN_def)

lemma length_contents: "length (contents s) = pending s"
  by (simp add: contents_def)

lemma empty_iff_pending: "ring_ok s \<Longrightarrow> is_txbuf_empty s \<longleftrightarrow> pending s = 0"
  by (simp add: is_txbuf_empty_def pending_def BUF_LEN_def word_unat_eq_iff
      pend_zero_iff ring_okD)

lemma full_iff_pending: "ring_ok s \<Longrightarrow> is_txbuf_full s \<longleftrightarrow> pending s = 31"
  by (simp add: is_txbuf_full_def pending_def BUF_LEN_def word_unat_eq_iff
      unat_NEXT_PLACE pend_31_iff ring_okD)

lemma not_empty_and_full: "\<not> (is_txbuf_empty s \<and> is_txbuf_full s)"
proof
  assume "is_txbuf_empty s \<and> is_txbuf_full s"
  then have "NEXT_PLACE (tx_w s) = tx_w s"
    by (simp add: is_txbuf_empty_def is_txbuf_full_def)
  then have "unat (NEXT_PLACE (tx_w s)) = unat (tx_w s)" by simp
  then have e: "Suc (unat (tx_w s)) mod 32 = unat (tx_w s)" by (simp add: unat_NEXT_PLACE)
  have "Suc (unat (tx_w s)) mod 32 < 32" by simp
  with e have "unat (tx_w s) < 32" by simp
  with e show False by (simp add: succ_mod_cases split: if_splits)
qed

lemma txbuf_put_full: "is_txbuf_full s \<Longrightarrow> txbuf_put v s = Inr (- 1, s)"
  by (simp add: txbuf_put_def)

lemma txbuf_get_empty: "is_txbuf_empty s \<Longrightarrow> txbuf_get c s = Inr (- 1, c, s)"
  by (simp add: txbuf_get_def)

lemma txbuf_put_ok:
  assumes ok: "ring_ok s" and nf: "\<not> is_txbuf_full s"
  shows "\<exists>s'. txbuf_put v s = Inr (0, s') \<and> ring_ok s' \<and>
              contents s' = contents s @ [v] \<and> pending s' = Suc (pending s)"
proof -
  define r w n where "r = unat (tx_r s)" and "w = unat (tx_w s)" and "n = pending s"
  define s' where "s' = s\<lparr>txbuf := (txbuf s)[w := v], tx_w := NEXT_PLACE (tx_w s)\<rparr>"
  from ok have len: "length (txbuf s) = 32" and r: "r < 32" and w: "w < 32"
    by (simp_all add: ring_okD r_def w_def)
  have n: "n = (w + 32 - r) mod 32"
    by (simp add: n_def pending_def BUF_LEN_def r_def w_def)
  have w': "unat (tx_w s') = Suc w mod 32"
    by (simp add: s'_def unat_NEXT_PLACE w_def)
  have r': "unat (tx_r s') = r"
    by (simp add: s'_def r_def)
  from nf have "unat (NEXT_PLACE (tx_w s)) \<noteq> unat (tx_r s)"
    by (simp add: is_txbuf_full_def word_unat_eq_iff)
  then have neq: "Suc w mod 32 \<noteq> r"
    by (simp add: unat_NEXT_PLACE r_def w_def)
  have put: "txbuf_put v s = Inr (0, s')"
    using nf len w by (simp add: txbuf_put_def s'_def w_def)
  have ok': "ring_ok s'"
    using len r by (simp add: ring_ok_def BUF_LEN_def w' r') (simp add: s'_def)
  have pend': "pending s' = Suc n"
    using pend_after_put [OF r w neq] by (simp add: pending_def BUF_LEN_def w' r' n)
  have at_w: "(r + n) mod 32 = w"
    unfolding n by (rule pend_reaches_w [OF r w])
  have n32: "n < 32" by (simp add: n)
  have old: "(txbuf s)[w := v] ! ((r + k) mod 32) = txbuf s ! ((r + k) mod 32)" if "k < n" for k
  proof -
    have "(r + k) mod 32 \<noteq> w"
    proof
      assume "(r + k) mod 32 = w"
      then have "(r + k) mod 32 = (r + n) mod 32" by (simp add: at_w)
      then have "k = n" using r that n32 by (intro add_mod_inj [of r k n]) simp_all
      with that show False by simp
    qed
    then show ?thesis by simp
  qed
  have "contents s' = map (\<lambda>k. (txbuf s)[w := v] ! ((r + k) mod 32)) [0..<Suc n]"
    by (simp add: contents_def pend' r' BUF_LEN_def) (simp add: s'_def)
  also have "\<dots> = map (\<lambda>k. (txbuf s)[w := v] ! ((r + k) mod 32)) [0..<n] @ [v]"
    using len w by (simp add: at_w)
  also have "map (\<lambda>k. (txbuf s)[w := v] ! ((r + k) mod 32)) [0..<n] = contents s"
    unfolding contents_def BUF_LEN_def n_def [symmetric] r_def [symmetric]
    by (rule map_cong) (simp_all add: old)
  finally have "contents s' = contents s @ [v]" .
  with put ok' pend' show ?thesis by (auto simp: n_def)
qed

lemma txbuf_get_ok:
  assumes ok: "ring_ok s" and ne: "\<not> is_txbuf_empty s"
  shows "\<exists>s'. txbuf_get c s = Inr (0, hd (contents s), s') \<and> ring_ok s' \<and>
              contents s \<noteq> [] \<and> contents s' = tl (contents s) \<and>
              s' = s\<lparr>tx_r := NEXT_PLACE (tx_r s)\<rparr>"
proof -
  define r w n where "r = unat (tx_r s)" and "w = unat (tx_w s)" and "n = pending s"
  define s' where "s' = s\<lparr>tx_r := NEXT_PLACE (tx_r s)\<rparr>"
  from ok have len: "length (txbuf s) = 32" and r: "r < 32" and w: "w < 32"
    by (simp_all add: ring_okD r_def w_def)
  have n: "n = (w + 32 - r) mod 32"
    by (simp add: n_def pending_def BUF_LEN_def r_def w_def)
  from ne have neq: "r \<noteq> w"
    by (simp add: is_txbuf_empty_def word_unat_eq_iff r_def w_def)
  have npos: "0 < n" using pend_zero_iff [OF r w] neq by (simp add: n)
  then obtain m where m: "n = Suc m" by (cases n) simp_all
  have r': "unat (tx_r s') = Suc r mod 32"
    by (simp add: s'_def unat_NEXT_PLACE r_def)
  have w': "unat (tx_w s') = w"
    by (simp add: s'_def w_def)
  have ok': "ring_ok s'"
    using len w by (simp add: ring_ok_def BUF_LEN_def w' r') (simp add: s'_def)
  have pend': "pending s' = m"
    using pend_after_get [OF r w neq] by (simp add: pending_def BUF_LEN_def w' r' n [symmetric] m)
  have cs: "contents s = txbuf s ! r # map (\<lambda>k. txbuf s ! ((r + Suc k) mod 32)) [0..<m]"
    unfolding contents_def BUF_LEN_def n_def [symmetric] r_def [symmetric] m
    using r by (simp add: map_upt_Suc del: upt_Suc)
  have "contents s' = map (\<lambda>k. txbuf s ! ((Suc r mod 32 + k) mod 32)) [0..<m]"
    by (simp add: contents_def pend' r' BUF_LEN_def) (simp add: s'_def)
  also have "\<dots> = map (\<lambda>k. txbuf s ! ((r + Suc k) mod 32)) [0..<m]"
    by (simp add: mod_add_left_eq)
  finally have cs': "contents s' = tl (contents s)" by (simp add: cs)
  have get: "txbuf_get c s = Inr (0, hd (contents s), s')"
    using ne len r by (simp add: txbuf_get_def s'_def cs r_def)
  from get ok' cs cs' show ?thesis by (auto simp: s'_def)
qed

section \<open>txbuf_put and txbuf_get, call by call\<close>

text \<open>
  C2. On a full buffer (\<open>NEXT_PLACE(tx_w) == tx_r\<close>) \<open>txbuf_put\<close> returns \<open>-1\<close> and
  leaves \<open>tx_r\<close>, \<open>tx_w\<close> and \<open>txbuf\<close> as they are. On a well-formed buffer that is not
  full it returns \<open>0\<close>; the new state has the byte in cell \<open>tx_w\<close>, every other cell
  and \<open>tx_r\<close> as before, and \<open>tx_w\<close> advanced by one modulo 32.
\<close>

theorem txbuf_put_spec:
  "(is_txbuf_full s \<longrightarrow> txbuf_put val s = Inr (- 1, s)) \<and>
   (ring_ok s \<and> \<not> is_txbuf_full s \<longrightarrow>
      txbuf_put val s =
        Inr (0, s\<lparr>txbuf := (txbuf s)[unat (tx_w s) := val], tx_w := NEXT_PLACE (tx_w s)\<rparr>) \<and>
      (txbuf s)[unat (tx_w s) := val] ! unat (tx_w s) = val \<and>
      (\<forall>i. i \<noteq> unat (tx_w s) \<longrightarrow> (txbuf s)[unat (tx_w s) := val] ! i = txbuf s ! i) \<and>
      unat (NEXT_PLACE (tx_w s)) = (unat (tx_w s) + 1) mod 32)"
proof (intro conjI impI)
  assume "is_txbuf_full s"
  then show "txbuf_put val s = Inr (- 1, s)" by (rule txbuf_put_full)
next
  assume a: "ring_ok s \<and> \<not> is_txbuf_full s"
  then have in_range: "unat (tx_w s) < length (txbuf s)" by (simp add: ring_okD)
  with a show "txbuf_put val s =
      Inr (0, s\<lparr>txbuf := (txbuf s)[unat (tx_w s) := val], tx_w := NEXT_PLACE (tx_w s)\<rparr>)"
    by (simp add: txbuf_put_def)
  from in_range show "(txbuf s)[unat (tx_w s) := val] ! unat (tx_w s) = val" by simp
  show "\<forall>i. i \<noteq> unat (tx_w s) \<longrightarrow> (txbuf s)[unat (tx_w s) := val] ! i = txbuf s ! i" by simp
  show "unat (NEXT_PLACE (tx_w s)) = (unat (tx_w s) + 1) mod 32" by (simp add: unat_NEXT_PLACE)
qed

theorem txbuf_put_spec_witness:
  "is_txbuf_full \<lparr>txbuf = replicate 32 0, tx_r = 0, tx_w = 31\<rparr> \<and>
   txbuf_put 7 \<lparr>txbuf = replicate 32 0, tx_r = 0, tx_w = 31\<rparr> =
     Inr (- 1, \<lparr>txbuf = replicate 32 0, tx_r = 0, tx_w = 31\<rparr>) \<and>
   ring_ok ring_init \<and> \<not> is_txbuf_full ring_init \<and>
   txbuf_put 7 ring_init = Inr (0, \<lparr>txbuf = 7 # replicate 31 0, tx_r = 0, tx_w = 1\<rparr>)"
proof -
  let ?f = "\<lparr>txbuf = replicate 32 0, tx_r = 0, tx_w = 31 :: uint32_t\<rparr>"
  have f: "is_txbuf_full ?f" by (simp add: is_txbuf_full_def NEXT_PLACE_def)
  have nf: "\<not> is_txbuf_full ring_init"
    by (simp add: is_txbuf_full_def NEXT_PLACE_def ring_init_def)
  have ok: "ring_ok ring_init" by (rule ring_ok_init)
  have "(replicate 32 (0 :: uint8_t))[0 := 7] = 7 # replicate 31 0"
    by (simp add: eval_nat_numeral)
  then have upd: "ring_init\<lparr>txbuf := (txbuf ring_init)[unat (tx_w ring_init) := 7],
      tx_w := NEXT_PLACE (tx_w ring_init)\<rparr> = \<lparr>txbuf = 7 # replicate 31 0, tx_r = 0, tx_w = 1\<rparr>"
    by (simp add: ring_init_def BUF_LEN_def NEXT_PLACE_def)
  from txbuf_put_spec [of ?f 7] f have "txbuf_put 7 ?f = Inr (- 1, ?f)" by blast
  moreover from txbuf_put_spec [of ring_init 7] ok nf
  have "txbuf_put 7 ring_init = Inr (0, \<lparr>txbuf = 7 # replicate 31 0, tx_r = 0, tx_w = 1\<rparr>)"
    unfolding upd by blast
  ultimately show ?thesis using f nf ok by simp
qed

text \<open>
  C3. On an empty buffer (\<open>tx_r == tx_w\<close>) \<open>txbuf_get\<close> returns \<open>-1\<close> and leaves
  \<open>tx_r\<close>, \<open>tx_w\<close>, \<open>txbuf\<close> and the caller's byte as they are. On a well-formed buffer
  that is not empty it returns \<open>0\<close> and hands back the byte of cell \<open>tx_r\<close>; \<open>tx_r\<close> is
  advanced by one modulo 32 and nothing else changes.
\<close>

theorem txbuf_get_spec:
  "(is_txbuf_empty s \<longrightarrow> txbuf_get c s = Inr (- 1, c, s)) \<and>
   (ring_ok s \<and> \<not> is_txbuf_empty s \<longrightarrow>
      txbuf_get c s = Inr (0, txbuf s ! unat (tx_r s), s\<lparr>tx_r := NEXT_PLACE (tx_r s)\<rparr>) \<and>
      unat (tx_r s) < length (txbuf s) \<and>
      unat (NEXT_PLACE (tx_r s)) = (unat (tx_r s) + 1) mod 32)"
proof (intro conjI impI)
  assume "is_txbuf_empty s"
  then show "txbuf_get c s = Inr (- 1, c, s)" by (rule txbuf_get_empty)
next
  assume a: "ring_ok s \<and> \<not> is_txbuf_empty s"
  then show in_range: "unat (tx_r s) < length (txbuf s)" by (simp add: ring_okD)
  with a show "txbuf_get c s =
      Inr (0, txbuf s ! unat (tx_r s), s\<lparr>tx_r := NEXT_PLACE (tx_r s)\<rparr>)"
    by (simp add: txbuf_get_def)
  show "unat (NEXT_PLACE (tx_r s)) = (unat (tx_r s) + 1) mod 32" by (simp add: unat_NEXT_PLACE)
qed

theorem txbuf_get_spec_witness:
  "is_txbuf_empty ring_init \<and> txbuf_get 9 ring_init = Inr (- 1, 9, ring_init) \<and>
   ring_ok \<lparr>txbuf = 7 # replicate 31 0, tx_r = 0, tx_w = 1\<rparr> \<and>
   \<not> is_txbuf_empty \<lparr>txbuf = 7 # replicate 31 0, tx_r = 0, tx_w = 1\<rparr> \<and>
   txbuf_get 9 \<lparr>txbuf = 7 # replicate 31 0, tx_r = 0, tx_w = 1\<rparr> =
     Inr (0, 7, \<lparr>txbuf = 7 # replicate 31 0, tx_r = 1, tx_w = 1\<rparr>)"
proof -
  let ?s = "\<lparr>txbuf = 7 # replicate 31 0, tx_r = 0, tx_w = 1 :: uint32_t\<rparr>"
  have e: "is_txbuf_empty ring_init" by (simp add: is_txbuf_empty_def ring_init_def)
  have ne: "\<not> is_txbuf_empty ?s" by (simp add: is_txbuf_empty_def)
  have ok: "ring_ok ?s" by (simp add: ring_ok_def BUF_LEN_def)
  from txbuf_get_spec [of ring_init 9] e
  have "txbuf_get 9 ring_init = Inr (- 1, 9, ring_init)" by blast
  moreover from txbuf_get_spec [of ?s 9] ok ne
  have "txbuf_get 9 ?s = Inr (0, txbuf ?s ! unat (tx_r ?s), ?s\<lparr>tx_r := NEXT_PLACE (tx_r ?s)\<rparr>)"
    by blast
  then have "txbuf_get 9 ?s = Inr (0, 7, \<lparr>txbuf = 7 # replicate 31 0, tx_r = 1, tx_w = 1\<rparr>)"
    by (simp add: NEXT_PLACE_def)
  ultimately show ?thesis using e ne ok by simp
qed

section \<open>Runs of calls\<close>

lemma run_ops_queue:
  assumes "ring_ok s"
  shows "\<exists>log c' s'. run_ops ops (c, s) = Inr (log, c', s') \<and> ring_ok s' \<and>
           contents s @ put_bytes log = got_bytes log @ contents s'"
  using assms
proof (induction ops arbitrary: c s)
  case Nil
  then show ?case by simp
next
  case (Cons x ops)
  show ?case
  proof (cases x)
    case (Put v)
    show ?thesis
    proof (cases "is_txbuf_full s")
      case True
      from Cons.IH [OF Cons.prems, of c] obtain log c' s' where
        "run_ops ops (c, s) = Inr (log, c', s')" "ring_ok s'"
        "contents s @ put_bytes log = got_bytes log @ contents s'" by blast
      with True Put show ?thesis by (simp add: txbuf_put_full)
    next
      case False
      from txbuf_put_ok [OF Cons.prems False, of v] obtain s1 where
        s1: "txbuf_put v s = Inr (0, s1)" "ring_ok s1" "contents s1 = contents s @ [v]"
        by blast
      from Cons.IH [OF s1(2), of c] obtain log c' s' where
        "run_ops ops (c, s1) = Inr (log, c', s')" "ring_ok s'"
        "contents s1 @ put_bytes log = got_bytes log @ contents s'" by blast
      with s1 Put show ?thesis by simp
    qed
  next
    case Get
    show ?thesis
    proof (cases "is_txbuf_empty s")
      case True
      from Cons.IH [OF Cons.prems, of c] obtain log c' s' where
        "run_ops ops (c, s) = Inr (log, c', s')" "ring_ok s'"
        "contents s @ put_bytes log = got_bytes log @ contents s'" by blast
      with True Get show ?thesis by (simp add: txbuf_get_empty)
    next
      case False
      from txbuf_get_ok [OF Cons.prems False, of c] obtain s1 where
        s1: "txbuf_get c s = Inr (0, hd (contents s), s1)" "ring_ok s1"
        "contents s \<noteq> []" "contents s1 = tl (contents s)"
        by blast
      from Cons.IH [OF s1(2), of "hd (contents s)"] obtain log c' s' where
        r: "run_ops ops (hd (contents s), s1) = Inr (log, c', s')" "ring_ok s'"
        "contents s1 @ put_bytes log = got_bytes log @ contents s'" by blast
      from s1(3) have "contents s = hd (contents s) # tl (contents s)" by simp
      then have "contents s @ put_bytes log = hd (contents s) # (contents s1 @ put_bytes log)"
        by (simp add: s1(4))
      with r s1 Get show ?thesis by simp
    qed
  qed
qed

lemma puts_succeed_bytes:
  "run_ops ops (c, s) = Inr (log, c', s') \<Longrightarrow> puts_succeed log \<Longrightarrow> put_bytes log = put_args ops"
proof (induction ops arbitrary: c s log)
  case Nil
  then show ?case by auto
next
  case (Cons x ops)
  then show ?case
    by (cases x) (auto split: sum.splits prod.splits)
qed

lemma run_puts:
  assumes "ring_ok s" and "pending s + length vs \<le> 31"
  shows "\<exists>s'. run_ops (map Put vs) (c, s) = Inr (map (\<lambda>v. PutRet v 0) vs, c, s') \<and>
          ring_ok s' \<and> contents s' = contents s @ vs"
  using assms
proof (induction vs arbitrary: s)
  case Nil
  then show ?case by simp
next
  case (Cons v vs)
  from Cons.prems have "pending s \<noteq> 31" by simp
  with Cons.prems(1) have nf: "\<not> is_txbuf_full s" by (simp add: full_iff_pending)
  from txbuf_put_ok [OF Cons.prems(1) nf, of v] obtain s1 where
    s1: "txbuf_put v s = Inr (0, s1)" "ring_ok s1" "contents s1 = contents s @ [v]"
    "pending s1 = Suc (pending s)" by blast
  from Cons.prems s1(4) have "pending s1 + length vs \<le> 31" by simp
  from Cons.IH [OF s1(2) this] obtain s' where
    "run_ops (map Put vs) (c, s1) = Inr (map (\<lambda>v. PutRet v 0) vs, c, s')" "ring_ok s'"
    "contents s' = contents s1 @ vs" by blast
  with s1 show ?case by simp
qed

lemma run_gets:
  assumes "ring_ok s"
  shows "\<exists>s'. run_ops (replicate (pending s) Get) (c, s) =
            Inr (map (GetRet 0) (contents s), last (c # contents s), s') \<and>
          ring_ok s' \<and> is_txbuf_empty s'"
  using assms
proof (induction "pending s" arbitrary: s c)
  case 0
  then have "is_txbuf_empty s" "contents s = []"
    by (simp_all add: empty_iff_pending contents_def)
  with 0 show ?case by simp
next
  case (Suc n)
  from Suc.hyps(2) Suc.prems have ne: "\<not> is_txbuf_empty s" by (simp add: empty_iff_pending)
  from txbuf_get_ok [OF Suc.prems ne, of c] obtain s1 where
    s1: "txbuf_get c s = Inr (0, hd (contents s), s1)" "ring_ok s1"
    "contents s \<noteq> []" "contents s1 = tl (contents s)" by blast
  have "pending s1 = length (contents s1)" by (simp add: length_contents)
  also have "\<dots> = pending s - 1" by (simp add: s1(4) length_contents)
  finally have n: "n = pending s1" using Suc.hyps(2) by simp
  from Suc.hyps(1) [OF n s1(2), of "hd (contents s)"] obtain s' where
    r: "run_ops (replicate (pending s1) Get) (hd (contents s), s1) =
          Inr (map (GetRet 0) (contents s1), last (hd (contents s) # contents s1), s')"
    "ring_ok s'" "is_txbuf_empty s'" by blast
  from s1(3) have cs: "contents s = hd (contents s) # contents s1" by (simp add: s1(4))
  have "pending s = Suc (pending s1)" using n Suc.hyps(2) by simp
  then have "replicate (pending s) Get = Get # replicate (pending s1) Get"
    by (simp only: replicate_Suc)
  moreover have "map (GetRet 0) (contents s) = GetRet 0 (hd (contents s)) # map (GetRet 0) (contents s1)"
    by (subst cs) simp
  moreover have "last (c # contents s) = last (hd (contents s) # contents s1)"
    by (subst cs) simp
  ultimately show ?case using r s1(1) by simp
qed

lemma contents_empty: "ring_ok s \<Longrightarrow> is_txbuf_empty s \<Longrightarrow> contents s = []"
  by (simp add: empty_iff_pending contents_def)

lemma run_ops_append:
  "run_ops (xs @ ys) (c, s) =
     (case run_ops xs (c, s) of
        Inl f \<Rightarrow> Inl f
      | Inr (log, c', s') \<Rightarrow>
          (case run_ops ys (c', s') of
             Inl f \<Rightarrow> Inl f
           | Inr (log', c'', s'') \<Rightarrow> Inr (log @ log', c'', s'')))"
proof (induction xs arbitrary: c s)
  case Nil
  show ?case by (simp split: sum.splits)
next
  case (Cons x xs)
  show ?case
    by (cases x) (simp_all add: Cons.IH split: sum.splits prod.splits)
qed

text \<open>
  C1. Start from an empty, well-formed buffer and run any sequence of puts and gets. The
  run ends without a fault. If every put in it succeeded (so never more than 31 bytes were
  pending) and the gets that returned data are as many as the puts, then the bytes the
  gets returned are the bytes that were put, in the order they were put, and the buffer is
  empty again. In particular up to 31 puts followed by as many gets all succeed and hand
  the bytes back in order.
\<close>

theorem fifo_round_trip:
  assumes "ring_ok s" and "is_txbuf_empty s"
  shows "(\<exists>log c' s'. run_ops ops (c, s) = Inr (log, c', s') \<and>
            (puts_succeed log \<and> length (got_bytes log) = length (put_args ops) \<longrightarrow>
               got_bytes log = put_args ops \<and> is_txbuf_empty s')) \<and>
         (length vs \<le> 31 \<longrightarrow>
            (\<exists>s'. run_ops (map Put vs @ replicate (length vs) Get) (c, s) =
               Inr (map (\<lambda>v. PutRet v 0) vs @ map (GetRet 0) vs, last (c # vs), s')))"
proof (intro conjI impI)
  from run_ops_queue [OF assms(1), of ops c] obtain log c' s' where
    r: "run_ops ops (c, s) = Inr (log, c', s')" and ok': "ring_ok s'" and
    q: "contents s @ put_bytes log = got_bytes log @ contents s'" by blast
  from q assms have q': "put_bytes log = got_bytes log @ contents s'"
    by (simp add: contents_empty)
  have "got_bytes log = put_args ops \<and> is_txbuf_empty s'"
    if "puts_succeed log \<and> length (got_bytes log) = length (put_args ops)"
  proof -
    from r that have pa: "put_bytes log = put_args ops" by (simp add: puts_succeed_bytes)
    with q' that have "length (contents s') = 0"
      by (metis add_cancel_right_right length_append)
    then have "pending s' = 0" by (simp add: length_contents)
    with ok' q' pa show ?thesis by (simp add: empty_iff_pending contents_def)
  qed
  with r show "\<exists>log c' s'. run_ops ops (c, s) = Inr (log, c', s') \<and>
      (puts_succeed log \<and> length (got_bytes log) = length (put_args ops) \<longrightarrow>
         got_bytes log = put_args ops \<and> is_txbuf_empty s')" by blast
next
  assume len: "length vs \<le> 31"
  from assms have p0: "pending s = 0" by (simp add: empty_iff_pending)
  with len have "pending s + length vs \<le> 31" by simp
  from run_puts [OF assms(1) this, of c] obtain s1 where
    s1: "run_ops (map Put vs) (c, s) = Inr (map (\<lambda>v. PutRet v 0) vs, c, s1)" "ring_ok s1"
    "contents s1 = contents s @ vs" by blast
  from s1(3) assms have c1: "contents s1 = vs" by (simp add: contents_empty)
  then have "pending s1 = length vs" by (simp add: length_contents [symmetric])
  with run_gets [OF s1(2), of c] c1 obtain s' where
    "run_ops (replicate (length vs) Get) (c, s1) = Inr (map (GetRet 0) vs, last (c # vs), s')"
    by auto
  with s1(1) show "\<exists>s'. run_ops (map Put vs @ replicate (length vs) Get) (c, s) =
      Inr (map (\<lambda>v. PutRet v 0) vs @ map (GetRet 0) vs, last (c # vs), s')"
    by (simp add: run_ops_append)
qed

lemma run_abc:
  "run_ops [Put 97, Put 98, Get, Put 99, Get, Get] (0, ring_init) =
     Inr ([PutRet 97 0, PutRet 98 0, GetRet 0 97, PutRet 99 0, GetRet 0 98, GetRet 0 99], 99,
          \<lparr>txbuf = [97, 98, 99] @ replicate 29 0, tx_r = 3, tx_w = 3\<rparr>)"
proof -
  have "replicate BUF_LEN (0 :: uint8_t) = [0, 0, 0] @ replicate 29 0"
    by (simp add: BUF_LEN_def eval_nat_numeral)
  then have i: "ring_init = \<lparr>txbuf = [0, 0, 0] @ replicate 29 0, tx_r = 0, tx_w = 0\<rparr>"
    by (simp add: ring_init_def)
  show ?thesis
    unfolding i
    by (simp add: txbuf_put_def txbuf_get_def is_txbuf_full_def is_txbuf_empty_def
        NEXT_PLACE_def)
qed

theorem fifo_round_trip_witness:
  "ring_ok ring_init \<and> is_txbuf_empty ring_init \<and>
   (\<exists>log c' s'. run_ops [Put 97, Put 98, Get, Put 99, Get, Get] (0, ring_init) = Inr (log, c', s') \<and>
      puts_succeed log \<and> got_bytes log = [97, 98, 99] \<and> is_txbuf_empty s') \<and>
   (\<exists>s'. run_ops [Put 97, Put 98, Put 99, Get, Get, Get] (0, ring_init) =
      Inr ([PutRet 97 0, PutRet 98 0, PutRet 99 0, GetRet 0 97, GetRet 0 98, GetRet 0 99], 99, s'))"
proof -
  have e: "is_txbuf_empty ring_init" by (simp add: is_txbuf_empty_def ring_init_def)
  note t = fifo_round_trip [OF ring_ok_init e, of "[Put 97, Put 98, Get, Put 99, Get, Get]" 0
      "[97, 98, 99]"]
  from t have "\<exists>log c' s'. run_ops [Put 97, Put 98, Get, Put 99, Get, Get] (0, ring_init) = Inr (log, c', s') \<and>
      puts_succeed log \<and> got_bytes log = [97, 98, 99] \<and> is_txbuf_empty s'"
    unfolding run_abc by simp
  moreover from t have "\<exists>s'. run_ops [Put 97, Put 98, Put 99, Get, Get, Get] (0, ring_init) =
      Inr ([PutRet 97 0, PutRet 98 0, PutRet 99 0, GetRet 0 97, GetRet 0 98, GetRet 0 99], 99, s')"
    by simp
  ultimately show ?thesis using e ring_ok_init by blast
qed

text \<open>
  C7. \<open>is_txbuf_empty\<close> holds in the initial state, and after any run of puts and gets
  from it exactly when the gets that returned data are as many as the puts that succeeded
  (every byte put has been consumed). From an empty well-formed buffer, up to 31 puts with
  no get in between all succeed, and \<open>is_txbuf_full\<close> holds afterwards exactly when
  they were 31.
\<close>

theorem empty_full_flags:
  "is_txbuf_empty ring_init \<and>
   (\<exists>log c' s'. run_ops ops (c, ring_init) = Inr (log, c', s') \<and>
      (is_txbuf_empty s' \<longleftrightarrow> length (got_bytes log) = length (put_bytes log))) \<and>
   (ring_ok s \<and> is_txbuf_empty s \<and> length vs \<le> 31 \<longrightarrow>
      (\<exists>s'. run_ops (map Put vs) (c, s) = Inr (map (\<lambda>v. PutRet v 0) vs, c, s') \<and>
         (is_txbuf_full s' \<longleftrightarrow> length vs = 31)))"
proof (intro conjI impI)
  show e: "is_txbuf_empty ring_init" by (simp add: is_txbuf_empty_def ring_init_def)
  from run_ops_queue [OF ring_ok_init, of ops c] obtain log c' s' where
    r: "run_ops ops (c, ring_init) = Inr (log, c', s')" and ok': "ring_ok s'" and
    q: "contents ring_init @ put_bytes log = got_bytes log @ contents s'" by blast
  from q e have "put_bytes log = got_bytes log @ contents s'"
    by (simp add: contents_empty ring_ok_init)
  then have "length (put_bytes log) = length (got_bytes log) + pending s'"
    by (simp add: length_contents)
  with ok' have "is_txbuf_empty s' \<longleftrightarrow> length (got_bytes log) = length (put_bytes log)"
    by (auto simp: empty_iff_pending)
  with r show "\<exists>log c' s'. run_ops ops (c, ring_init) = Inr (log, c', s') \<and>
      (is_txbuf_empty s' \<longleftrightarrow> length (got_bytes log) = length (put_bytes log))" by blast
next
  assume a: "ring_ok s \<and> is_txbuf_empty s \<and> length vs \<le> 31"
  then have ok: "ring_ok s" and em: "is_txbuf_empty s" and len: "length vs \<le> 31"
    by blast+
  from ok em have "pending s = 0" by (simp add: empty_iff_pending)
  with len have "pending s + length vs \<le> 31" by simp
  from run_puts [OF ok this, of c] obtain s' where
    s': "run_ops (map Put vs) (c, s) = Inr (map (\<lambda>v. PutRet v 0) vs, c, s')" "ring_ok s'"
    "contents s' = contents s @ vs" by blast
  from s'(3) ok em have "contents s' = vs" by (simp add: contents_empty)
  then have "pending s' = length vs" by (simp add: length_contents [symmetric])
  with s'(2) have "is_txbuf_full s' \<longleftrightarrow> length vs = 31" by (simp add: full_iff_pending)
  with s'(1) show "\<exists>s'. run_ops (map Put vs) (c, s) = Inr (map (\<lambda>v. PutRet v 0) vs, c, s') \<and>
      (is_txbuf_full s' \<longleftrightarrow> length vs = 31)" by blast
qed

theorem empty_full_flags_witness:
  "ring_ok ring_init \<and> is_txbuf_empty ring_init \<and> length (replicate 31 (5 :: uint8_t)) \<le> 31 \<and>
   (\<exists>s'. run_ops (map Put (replicate 31 5)) (0, ring_init) =
      Inr (map (\<lambda>v. PutRet v 0) (replicate 31 5), 0, s') \<and> is_txbuf_full s') \<and>
   length (replicate 30 (5 :: uint8_t)) \<le> 31 \<and>
   (\<exists>s'. run_ops (map Put (replicate 30 5)) (0, ring_init) =
      Inr (map (\<lambda>v. PutRet v 0) (replicate 30 5), 0, s') \<and> \<not> is_txbuf_full s')"
proof -
  have e: "is_txbuf_empty ring_init" by (simp add: is_txbuf_empty_def ring_init_def)
  from empty_full_flags [where s = ring_init and vs = "replicate 31 5" and c = 0] e ring_ok_init
  have "\<exists>s'. run_ops (map Put (replicate 31 5)) (0, ring_init) =
      Inr (map (\<lambda>v. PutRet v 0) (replicate 31 5), 0, s') \<and> is_txbuf_full s'"
    by simp
  moreover from empty_full_flags [where s = ring_init and vs = "replicate 30 5" and c = 0] e ring_ok_init
  have "\<exists>s'. run_ops (map Put (replicate 30 5)) (0, ring_init) =
      Inr (map (\<lambda>v. PutRet v 0) (replicate 30 5), 0, s') \<and> \<not> is_txbuf_full s'"
    by simp
  ultimately show ?thesis using e ring_ok_init by simp
qed

text \<open>
  C10. From the initial state \<open>tx_r = tx_w = 0\<close>, every sequence of \<open>txbuf_put\<close> and
  \<open>txbuf_get\<close> calls runs without an out-of-range access and ends in a state where
  both indices are below 32 and the array still has its 32 cells; and the buffer is not
  empty and full at once.
\<close>

theorem index_range_invariant:
  "\<exists>log c' s'. run_ops ops (c, ring_init) = Inr (log, c', s') \<and>
     unat (tx_r s') < 32 \<and> unat (tx_w s') < 32 \<and> length (txbuf s') = 32 \<and>
     \<not> (is_txbuf_empty s' \<and> is_txbuf_full s')"
proof -
  from run_ops_queue [OF ring_ok_init, of ops c] obtain log c' s' where
    "run_ops ops (c, ring_init) = Inr (log, c', s')" "ring_ok s'" by blast
  then show ?thesis using not_empty_and_full [of s'] by (auto dest: ring_okD)
qed

section \<open>The drain loop of the receiver\<close>

lemma drain_queue:
  assumes "ring_ok (buf w)"
  shows "\<exists>w'. drain c w = Some (Inr (last (c # contents (buf w)), w')) \<and>
           trace w' = trace w @
             concat (map (\<lambda>v. [Call_txbuf_get 0, Call_printf ''%c'' [uint v]]) (contents (buf w))) @
             [Call_txbuf_get (- 1)] \<and>
           is_txbuf_empty (buf w') \<and> ring_ok (buf w') \<and> sem w' = sem w"
  using assms
proof (induction "pending (buf w)" arbitrary: w c)
  case 0
  then have e: "is_txbuf_empty (buf w)" and c0: "contents (buf w) = []"
    by (simp_all add: empty_iff_pending contents_def)
  have "drain c w = Some (Inr (c, w\<lparr>buf := buf w, trace := trace w @ [Call_txbuf_get (- 1)]\<rparr>))"
    by (subst drain.simps) (simp add: txbuf_get_empty [OF e])
  with e c0 0 show ?case by simp
next
  case (Suc n)
  let ?s = "buf w"
  from Suc.hyps(2) Suc.prems have ne: "\<not> is_txbuf_empty ?s" by (simp add: empty_iff_pending)
  from txbuf_get_ok [OF Suc.prems ne, of c] obtain s1 where
    s1: "txbuf_get c ?s = Inr (0, hd (contents ?s), s1)" "ring_ok s1"
    "contents ?s \<noteq> []" "contents s1 = tl (contents ?s)" by blast
  define w1 where "w1 = w\<lparr>buf := s1,
    trace := trace w @ [Call_txbuf_get 0, Call_printf ''%c'' [uint (hd (contents ?s))]]\<rparr>"
  have step: "drain c w = drain (hd (contents ?s)) w1"
    by (subst drain.simps) (simp add: s1(1) w1_def)
  have "pending s1 = length (contents s1)" by (simp add: length_contents)
  also have "\<dots> = pending ?s - 1" by (simp add: s1(4) length_contents)
  finally have n: "n = pending (buf w1)" using Suc.hyps(2) by (simp add: w1_def)
  have ok1: "ring_ok (buf w1)" using s1(2) by (simp add: w1_def)
  from Suc.hyps(1) [OF n ok1, of "hd (contents ?s)"] obtain w' where
    w': "drain (hd (contents ?s)) w1 = Some (Inr (last (hd (contents ?s) # contents (buf w1)), w'))"
    "trace w' = trace w1 @
       concat (map (\<lambda>v. [Call_txbuf_get 0, Call_printf ''%c'' [uint v]]) (contents (buf w1))) @
       [Call_txbuf_get (- 1)]"
    "is_txbuf_empty (buf w')" "ring_ok (buf w')" "sem w' = sem w1" by blast
  from s1(3) have cs: "contents ?s = hd (contents ?s) # contents (buf w1)"
    by (simp add: s1(4) w1_def)
  have l: "last (c # contents ?s) = last (hd (contents ?s) # contents (buf w1))"
    by (subst cs) simp
  have t: "trace w' = trace w @
      concat (map (\<lambda>v. [Call_txbuf_get 0, Call_printf ''%c'' [uint v]]) (contents ?s)) @
      [Call_txbuf_get (- 1)]"
    by (subst cs) (simp add: w'(2), simp add: w1_def)
  have "sem w' = sem w" by (simp add: w'(5) w1_def)
  with step w'(1,3,4) l t show ?case by simp
qed

text \<open>
  C8. Let \<open>N \<le> 31\<close> bytes be put into an empty well-formed buffer before the receiver
  acts; the puts all succeed. The drain loop then ends, after exactly \<open>N\<close> calls of
  \<open>txbuf_get\<close> that return \<open>0\<close>, each followed by the \<open>printf\<close> of the byte it got
  (the bytes in the order they were put), and one last call that returns \<open>-1\<close>; the
  buffer is empty afterwards. The same holds of the receiver's whole reaction to one
  successful \<open>xSemaphoreTake\<close>, which prints its header before the loop and the line end
  after it.
\<close>

theorem batch_drain:
  assumes "ring_ok (buf w)" and "is_txbuf_empty (buf w)" and "length vs \<le> 31"
  shows "\<exists>s1 c' w'.
           run_ops (map Put vs) (c0, buf w) = Inr (map (\<lambda>v. PutRet v 0) vs, c0, s1) \<and>
           drain c (w\<lparr>buf := s1\<rparr>) = Some (Inr (c', w')) \<and>
           trace w' = trace w @
             concat (map (\<lambda>v. [Call_txbuf_get 0, Call_printf ''%c'' [uint v]]) vs) @
             [Call_txbuf_get (- 1)] \<and>
           is_txbuf_empty (buf w') \<and>
           (\<exists>c'' w''.
              receiver_taken (c, n) (w\<lparr>buf := s1\<rparr>) = Some (Inr ((c'', n + 1), w'')) \<and>
              trace w'' = trace w @
                [Call_printf ''Get BinarySemaphore OK: %d, data: '' [sint n]] @
                concat (map (\<lambda>v. [Call_txbuf_get 0, Call_printf ''%c'' [uint v]]) vs) @
                [Call_txbuf_get (- 1), Call_printf [CHR 0x0D, CHR 0x0A] []] \<and>
              is_txbuf_empty (buf w''))"
proof -
  from assms have "pending (buf w) + length vs \<le> 31" by (simp add: empty_iff_pending)
  from run_puts [OF assms(1) this, of c0] obtain s1 where
    s1: "run_ops (map Put vs) (c0, buf w) = Inr (map (\<lambda>v. PutRet v 0) vs, c0, s1)"
    "ring_ok s1" "contents s1 = contents (buf w) @ vs" by blast
  from s1(3) assms have c1: "contents (buf (w\<lparr>buf := s1\<rparr>)) = vs" by (simp add: contents_empty)
  have "ring_ok (buf (w\<lparr>buf := s1\<rparr>))" using s1(2) by simp
  from drain_queue [OF this, of c] obtain w' where
    d: "drain c (w\<lparr>buf := s1\<rparr>) = Some (Inr (last (c # vs), w'))"
    "trace w' = trace w @
       concat (map (\<lambda>v. [Call_txbuf_get 0, Call_printf ''%c'' [uint v]]) vs) @
       [Call_txbuf_get (- 1)]"
    "is_txbuf_empty (buf w')"
    unfolding c1 by auto
  let ?h = "Call_printf ''Get BinarySemaphore OK: %d, data: '' [sint n]"
  let ?w = "w\<lparr>buf := s1, trace := trace w @ [?h]\<rparr>"
  have c2: "contents (buf ?w) = vs" using c1 by simp
  have "ring_ok (buf ?w)" using s1(2) by simp
  from drain_queue [OF this, of c] obtain w2 where
    d2: "drain c ?w = Some (Inr (last (c # vs), w2))"
    "trace w2 = trace w @ [?h] @
       concat (map (\<lambda>v. [Call_txbuf_get 0, Call_printf ''%c'' [uint v]]) vs) @
       [Call_txbuf_get (- 1)]"
    "is_txbuf_empty (buf w2)"
    unfolding c2 by auto
  let ?w'' = "w2\<lparr>trace := trace w2 @ [Call_printf [CHR 0x0D, CHR 0x0A] []]\<rparr>"
  have "receiver_taken (c, n) (w\<lparr>buf := s1\<rparr>) = Some (Inr ((last (c # vs), n + 1), ?w''))"
    by (simp add: receiver_taken_def d2(1))
  moreover have "trace ?w'' = trace w @ [?h] @
      concat (map (\<lambda>v. [Call_txbuf_get 0, Call_printf ''%c'' [uint v]]) vs) @
      [Call_txbuf_get (- 1), Call_printf [CHR 0x0D, CHR 0x0A] []]"
    by (simp add: d2(2))
  moreover have "is_txbuf_empty (buf ?w'')" using d2(3) by simp
  ultimately have "\<exists>c'' w''.
      receiver_taken (c, n) (w\<lparr>buf := s1\<rparr>) = Some (Inr ((c'', n + 1), w'')) \<and>
      trace w'' = trace w @ [?h] @
        concat (map (\<lambda>v. [Call_txbuf_get 0, Call_printf ''%c'' [uint v]]) vs) @
        [Call_txbuf_get (- 1), Call_printf [CHR 0x0D, CHR 0x0A] []] \<and>
      is_txbuf_empty (buf w'')"
    by blast
  with s1(1) d show ?thesis by blast
qed

theorem batch_drain_witness:
  "ring_ok (buf world_init) \<and> is_txbuf_empty (buf world_init) \<and>
   length [97, 98, 99 :: uint8_t] \<le> 31 \<and>
   (\<exists>s1 c' w'.
      run_ops [Put 97, Put 98, Put 99] (0, buf world_init) =
        Inr ([PutRet 97 0, PutRet 98 0, PutRet 99 0], 0, s1) \<and>
      drain 0 (world_init\<lparr>buf := s1\<rparr>) = Some (Inr (c', w')) \<and>
      trace w' = [Call_txbuf_get 0, Call_printf ''%c'' [97],
                  Call_txbuf_get 0, Call_printf ''%c'' [98],
                  Call_txbuf_get 0, Call_printf ''%c'' [99], Call_txbuf_get (- 1)] \<and>
      is_txbuf_empty (buf w'))"
proof -
  have ok: "ring_ok (buf world_init)" by (simp add: world_init_def ring_ok_init)
  have e: "is_txbuf_empty (buf world_init)"
    by (simp add: world_init_def is_txbuf_empty_def ring_init_def)
  have len: "length [97, 98, 99 :: uint8_t] \<le> 31" by simp
  have tr: "trace world_init = []" by (simp add: world_init_def)
  from batch_drain [OF ok e len, of 0 0 0] show ?thesis
    using ok e by (simp add: tr) blast
qed

section \<open>The sender\<close>

lemma ucast_of_nat_8: "(ucast (of_nat n :: 32 word) :: 8 word) = of_nat n"
  by (simp add: unsigned_of_nat take_bit_eq_mod word_of_nat_eq_iff mod_mod_cancel)

lemma ucast_add_8: "(ucast (x + y :: 32 word) :: 8 word) = ucast x + ucast y"
proof -
  have "(ucast (x + y) :: 8 word) = ucast (of_nat (unat x + unat y) :: 32 word)"
    by (subst word_arith_nat_add) (rule refl)
  also have "\<dots> = of_nat (unat x + unat y)" by (rule ucast_of_nat_8)
  also have "\<dots> = of_nat (unat x) + of_nat (unat y)" by (rule of_nat_add)
  also have "\<dots> = ucast x + ucast y" by (simp only: of_nat_unat)
  finally show ?thesis .
qed

lemma unat_of_nat_8: "unat (of_nat n :: 8 word) = n mod 256"
  by (simp add: unat_of_nat)

lemma map_upt_3: "map f [0..<3 + m] = f 0 # f 1 # f 2 # map (\<lambda>k. f (3 + k)) [0..<m]"
proof -
  have "[0..<3 + m] = [0..<3] @ [3..<3 + m]" by (rule upt_add_eq_append) simp
  also have "[3..<3 + m] = map (\<lambda>k. k + 3) [0..<m]" by (simp add: map_add_upt add.commute)
  also have "[0..<3] = [0, 1, 2]" by (simp add: eval_nat_numeral)
  finally show ?thesis by (simp add: add.commute)
qed

lemma put_attempts_append: "put_attempts (xs @ ys) = put_attempts xs @ put_attempts ys"
  by (induction xs rule: put_attempts.induct) simp_all

lemma give_follows_put_append:
  "give_follows_put xs \<Longrightarrow> give_follows_put ys \<Longrightarrow> give_follows_put (xs @ ys)"
  by (induction xs rule: give_follows_put.induct) simp_all

lemma sender_body_trace:
  assumes "ring_ok (buf w)"
  shows "\<exists>w' l' p. sender_body (w, l) = Inr (w', l') \<and> ring_ok (buf w') \<and>
           txbuf_put (sender_byte l) (buf w) =
             Inr (if is_txbuf_full (buf w) then - 1 else 0, buf w') \<and>
           cnt_tx l' = cnt_tx l + 1 \<and>
           trace w' = trace w @
             [Call_txbuf_put (sender_byte l) (if is_txbuf_full (buf w) then - 1 else 0),
              Call_xSemaphoreGive (\<not> sem w), Call_printf p [sint (if sem w then cnt_err l else cnt_ok l)]]"
proof (cases "is_txbuf_full (buf w)")
  case True
  then have "txbuf_put (sender_byte l) (buf w) = Inr (- 1, buf w)" by (rule txbuf_put_full)
  with True assms show ?thesis
    by (cases "sem w") (simp_all add: sender_body_def xSemaphoreGive_def)
next
  case False
  from txbuf_put_ok [OF assms False, of "sender_byte l"] obtain s' where
    "txbuf_put (sender_byte l) (buf w) = Inr (0, s')" "ring_ok s'" by blast
  with False show ?thesis
    by (cases "sem w") (simp_all add: sender_body_def xSemaphoreGive_def)
qed

lemma sender_for_unfold:
  "sender_for 0 st =
     (case sender_body st of
        Inl f \<Rightarrow> Inl f
      | Inr st1 \<Rightarrow>
          (case sender_body st1 of
             Inl f \<Rightarrow> Inl f
           | Inr st2 \<Rightarrow> sender_body st2))"
  by (simp split: sum.splits)

lemma sender_cycle_trace:
  assumes "ring_ok (buf w)"
  shows "\<exists>w' l' ex. sender_cycle t (w, l) = Inr (w', l') \<and> ring_ok (buf w') \<and>
           cnt_tx l' = cnt_tx l + 3 \<and> trace w' = trace w @ ex \<and> give_follows_put ex \<and>
           put_attempts ex =
             [ucast (97 + cnt_tx l), ucast (97 + (cnt_tx l + 1)), ucast (97 + (cnt_tx l + 2))]"
proof -
  from sender_body_trace [OF assms, of l] obtain w1 l1 rc1 g1 p1 where
    b1: "sender_body (w, l) = Inr (w1, l1)" "ring_ok (buf w1)" "cnt_tx l1 = cnt_tx l + 1"
    "trace w1 = trace w @ [Call_txbuf_put (sender_byte l) rc1, Call_xSemaphoreGive g1, Call_printf p1 [sint (if sem w then cnt_err l else cnt_ok l)]]"
    by blast
  from sender_body_trace [OF b1(2), of l1] obtain w2 l2 rc2 g2 p2 where
    b2: "sender_body (w1, l1) = Inr (w2, l2)" "ring_ok (buf w2)" "cnt_tx l2 = cnt_tx l1 + 1"
    "trace w2 = trace w1 @ [Call_txbuf_put (sender_byte l1) rc2, Call_xSemaphoreGive g2, Call_printf p2 [sint (if sem w1 then cnt_err l1 else cnt_ok l1)]]"
    by blast
  from sender_body_trace [OF b2(2), of l2] obtain w3 l3 rc3 g3 p3 where
    b3: "sender_body (w2, l2) = Inr (w3, l3)" "ring_ok (buf w3)" "cnt_tx l3 = cnt_tx l2 + 1"
    "trace w3 = trace w2 @ [Call_txbuf_put (sender_byte l2) rc3, Call_xSemaphoreGive g3, Call_printf p3 [sint (if sem w2 then cnt_err l2 else cnt_ok l2)]]"
    by blast
  have "sender_cycle t (w, l) = Inr (w3\<lparr>trace := trace w3 @ [Call_vTaskDelay t]\<rparr>, l3)"
    unfolding sender_cycle_def sender_for_unfold by (simp add: b1(1) b2(1) b3(1))
  moreover have "cnt_tx l3 = cnt_tx l + 3" by (simp add: b1(3) b2(3) b3(3))
  moreover have "sender_byte l1 = ucast (97 + (cnt_tx l + 1))"
    "sender_byte l2 = ucast (97 + (cnt_tx l + 2))"
    by (simp_all add: sender_byte_def b1(3) b2(3) add.assoc)
  ultimately show ?thesis using b3(2)
    by (simp add: b1(4) b2(4) b3(4) sender_byte_def)
qed

lemma sender_cycles_trace:
  assumes "ring_ok (buf w)"
  shows "\<exists>w' l' ex. sender_cycles t n (w, l) = Inr (w', l') \<and> ring_ok (buf w') \<and>
           cnt_tx l' = cnt_tx l + 3 * of_nat n \<and> trace w' = trace w @ ex \<and>
           give_follows_put ex \<and>
           put_attempts ex = map (\<lambda>k. ucast (97 + (cnt_tx l + of_nat k))) [0..<3 * n]"
  using assms
proof (induction n arbitrary: w l)
  case 0
  then show ?case by simp
next
  case (Suc n)
  from sender_cycle_trace [OF Suc.prems, of t l] obtain w1 l1 ex1 where
    c1: "sender_cycle t (w, l) = Inr (w1, l1)" "ring_ok (buf w1)" "cnt_tx l1 = cnt_tx l + 3"
    "trace w1 = trace w @ ex1" "give_follows_put ex1"
    "put_attempts ex1 =
       [ucast (97 + cnt_tx l), ucast (97 + (cnt_tx l + 1)), ucast (97 + (cnt_tx l + 2))]"
    by blast
  from Suc.IH [OF c1(2), of l1] obtain w' l' ex where
    r: "sender_cycles t n (w1, l1) = Inr (w', l')" "ring_ok (buf w')"
    "cnt_tx l' = cnt_tx l1 + 3 * of_nat n" "trace w' = trace w1 @ ex" "give_follows_put ex"
    "put_attempts ex = map (\<lambda>k. ucast (97 + (cnt_tx l1 + of_nat k))) [0..<3 * n]"
    by blast
  have run: "sender_cycles t (Suc n) (w, l) = Inr (w', l')" by (simp add: c1(1) r(1))
  have cnt: "cnt_tx l' = cnt_tx l + 3 * of_nat (Suc n)" by (simp add: r(3) c1(3))
  have tr: "trace w' = trace w @ (ex1 @ ex)" by (simp add: r(4) c1(4))
  have gfp: "give_follows_put (ex1 @ ex)" using c1(5) r(5) by (rule give_follows_put_append)
  have "3 * Suc n = 3 + 3 * n" by simp
  then have "map (\<lambda>k. ucast (97 + (cnt_tx l + of_nat k)) :: uint8_t) [0..<3 * Suc n] =
      [ucast (97 + cnt_tx l), ucast (97 + (cnt_tx l + 1)), ucast (97 + (cnt_tx l + 2))] @
      map (\<lambda>k. ucast (97 + (cnt_tx l1 + of_nat k))) [0..<3 * n]"
    by (simp only: map_upt_3) (simp add: c1(3) add.assoc)
  then have "put_attempts (ex1 @ ex) =
      map (\<lambda>k. ucast (97 + (cnt_tx l + of_nat k))) [0..<3 * Suc n]"
    by (simp add: put_attempts_append c1(6) r(6))
  with run r(2) cnt tr gfp show ?case by blast
qed

text \<open>
  C4. In every pass through the body of the sender's inner loop, from any well-formed
  buffer, full or not, and any semaphore state, the call after \<open>txbuf_put\<close> is
  \<open>xSemaphoreGive\<close>: the pass adds to the trace the put with its return code (\<open>-1\<close>
  when the buffer was full, \<open>0\<close> otherwise), then the give, then one \<open>printf\<close>. So
  over any number of cycles every put is directly followed by a give, three per cycle.
\<close>

theorem give_after_every_put:
  assumes "ring_ok (buf w)"
  shows "(\<exists>w' l' g p. sender_body (w, l) = Inr (w', l') \<and>
            txbuf_put (sender_byte l) (buf w) =
              Inr (if is_txbuf_full (buf w) then - 1 else 0, buf w') \<and>
            trace w' = trace w @
              [Call_txbuf_put (sender_byte l) (if is_txbuf_full (buf w) then - 1 else 0),
               Call_xSemaphoreGive g, p]) \<and>
         (\<exists>w' l' ex. sender_cycles t n (w, l) = Inr (w', l') \<and> trace w' = trace w @ ex \<and>
            give_follows_put ex \<and> length (put_attempts ex) = 3 * n)"
proof
  from sender_body_trace [OF assms, of l]
  show "\<exists>w' l' g p. sender_body (w, l) = Inr (w', l') \<and>
      txbuf_put (sender_byte l) (buf w) =
        Inr (if is_txbuf_full (buf w) then - 1 else 0, buf w') \<and>
      trace w' = trace w @
        [Call_txbuf_put (sender_byte l) (if is_txbuf_full (buf w) then - 1 else 0),
         Call_xSemaphoreGive g, p]"
    by blast
next
  from sender_cycles_trace [OF assms, of t n l] obtain w' l' ex where
    "sender_cycles t n (w, l) = Inr (w', l')" "trace w' = trace w @ ex" "give_follows_put ex"
    "put_attempts ex = map (\<lambda>k. ucast (97 + (cnt_tx l + of_nat k))) [0..<3 * n]"
    by blast
  moreover from this(4) have "length (put_attempts ex) = 3 * n" by simp
  ultimately show "\<exists>w' l' ex. sender_cycles t n (w, l) = Inr (w', l') \<and>
      trace w' = trace w @ ex \<and> give_follows_put ex \<and> length (put_attempts ex) = 3 * n"
    by blast
qed

theorem give_after_every_put_witness:
  "ring_ok (buf \<lparr>buf = \<lparr>txbuf = replicate 32 0, tx_r = 0, tx_w = 31\<rparr>, sem = True, trace = []\<rparr>) \<and>
   is_txbuf_full (buf \<lparr>buf = \<lparr>txbuf = replicate 32 0, tx_r = 0, tx_w = 31\<rparr>, sem = True, trace = []\<rparr>) \<and>
   (\<exists>w' l' g p.
      sender_body (\<lparr>buf = \<lparr>txbuf = replicate 32 0, tx_r = 0, tx_w = 31\<rparr>, sem = True, trace = []\<rparr>,
        sender_init) = Inr (w', l') \<and>
      trace w' = [Call_txbuf_put 97 (- 1), Call_xSemaphoreGive g, p]) \<and>
   ring_ok (buf world_init) \<and> \<not> is_txbuf_full (buf world_init) \<and>
   (\<exists>w' l' g p. sender_body (world_init, sender_init) = Inr (w', l') \<and>
      trace w' = [Call_txbuf_put 97 0, Call_xSemaphoreGive g, p])"
proof -
  let ?wf = "\<lparr>buf = \<lparr>txbuf = replicate 32 0, tx_r = 0, tx_w = 31 :: uint32_t\<rparr>,
    sem = True, trace = []\<rparr>"
  have okf: "ring_ok (buf ?wf)" by (simp add: ring_ok_def BUF_LEN_def)
  have f: "is_txbuf_full (buf ?wf)" by (simp add: is_txbuf_full_def NEXT_PLACE_def)
  have ok: "ring_ok (buf world_init)" by (simp add: world_init_def ring_ok_init)
  have nf: "\<not> is_txbuf_full (buf world_init)"
    by (simp add: world_init_def is_txbuf_full_def NEXT_PLACE_def ring_init_def)
  have b: "sender_byte sender_init = 97" by (simp add: sender_byte_def sender_init_def)
  have tr: "trace world_init = []" by (simp add: world_init_def)
  from give_after_every_put [OF okf, of sender_init, THEN conjunct1] f b
  have "\<exists>w' l' g p. sender_body (?wf, sender_init) = Inr (w', l') \<and>
      trace w' = [Call_txbuf_put 97 (- 1), Call_xSemaphoreGive g, p]"
    by simp blast
  moreover from give_after_every_put [OF ok, of sender_init, THEN conjunct1] nf b tr
  have "\<exists>w' l' g p. sender_body (world_init, sender_init) = Inr (w', l') \<and>
      trace w' = [Call_txbuf_put 97 0, Call_xSemaphoreGive g, p]"
    by simp blast
  ultimately show ?thesis using okf f ok nf by blast
qed

text \<open>
  C6, as the code has it. In every cycle, whatever the state of the buffer and of the
  semaphore, the sender passes to \<open>txbuf_put\<close> three sequential bytes \<open>b\<close>, \<open>b + 1\<close>,
  \<open>b + 2\<close>, where \<open>b\<close> is \<open>'a'+cnt_tx\<close> as an unsigned char, and \<open>cnt_tx\<close> grows by 3.
  So, started with its counters at 0, in cycle number \<open>k\<close> (counting from 0) it passes
  the bytes \<open>97 + 3k\<close>, \<open>98 + 3k\<close> and \<open>99 + 3k\<close> reduced modulo 256:
  \<open>'a','b','c'\<close>, then \<open>'d','e','f'\<close>, and on through all 256 byte values. Nothing
  brings the value back into an alphabet.
\<close>

theorem sender_cycle_bytes:
  assumes "ring_ok (buf w)"
  shows "(\<exists>w' l' b.
            sender_cycle t (w, l) = Inr (w', l') \<and>
            put_attempts (trace w') = put_attempts (trace w) @ [b, b + 1, b + 2] \<and>
            b = ucast (97 + cnt_tx l) \<and> cnt_tx l' = cnt_tx l + 3) \<and>
         (\<exists>w1 l1 w2 l2 b0 b1 b2.
            sender_cycles t k (w, sender_init) = Inr (w1, l1) \<and>
            sender_cycle t (w1, l1) = Inr (w2, l2) \<and>
            put_attempts (trace w2) = put_attempts (trace w1) @ [b0, b1, b2] \<and>
            unat b0 = (97 + 3 * k) mod 256 \<and> unat b1 = (98 + 3 * k) mod 256 \<and>
            unat b2 = (99 + 3 * k) mod 256)"
proof
  from sender_cycle_trace [OF assms, of t l] obtain w' l' ex where
    c: "sender_cycle t (w, l) = Inr (w', l')" "cnt_tx l' = cnt_tx l + 3"
    "trace w' = trace w @ ex"
    "put_attempts ex =
       [ucast (97 + cnt_tx l), ucast (97 + (cnt_tx l + 1)), ucast (97 + (cnt_tx l + 2))]"
    by blast
  have "(ucast (97 + (cnt_tx l + 1)) :: uint8_t) = ucast (97 + cnt_tx l) + 1"
    "(ucast (97 + (cnt_tx l + 2)) :: uint8_t) = ucast (97 + cnt_tx l) + 2"
    by (simp_all add: ucast_add_8)
  with c show "\<exists>w' l' b.
      sender_cycle t (w, l) = Inr (w', l') \<and>
      put_attempts (trace w') = put_attempts (trace w) @ [b, b + 1, b + 2] \<and>
      b = ucast (97 + cnt_tx l) \<and> cnt_tx l' = cnt_tx l + 3"
    by (simp add: put_attempts_append)
next
  from sender_cycles_trace [OF assms, of t k sender_init] obtain w1 l1 where
    r: "sender_cycles t k (w, sender_init) = Inr (w1, l1)" "ring_ok (buf w1)"
    "cnt_tx l1 = cnt_tx sender_init + 3 * of_nat k" by blast
  from r(3) have cnt: "cnt_tx l1 = of_nat (3 * k)" by (simp add: sender_init_def)
  from sender_cycle_trace [OF r(2), of t l1] obtain w2 l2 ex where
    c: "sender_cycle t (w1, l1) = Inr (w2, l2)" "trace w2 = trace w1 @ ex"
    "put_attempts ex =
       [ucast (97 + cnt_tx l1), ucast (97 + (cnt_tx l1 + 1)), ucast (97 + (cnt_tx l1 + 2))]"
    by blast
  have e0: "(97 :: 32 word) + cnt_tx l1 = of_nat (97 + 3 * k)"
    and e1: "(97 :: 32 word) + (cnt_tx l1 + 1) = of_nat (98 + 3 * k)"
    and e2: "(97 :: 32 word) + (cnt_tx l1 + 2) = of_nat (99 + 3 * k)"
    by (simp_all add: cnt)
  have pa: "put_attempts (trace w2) = put_attempts (trace w1) @
      [of_nat (97 + 3 * k), of_nat (98 + 3 * k), of_nat (99 + 3 * k)]"
    unfolding c(2) put_attempts_append c(3) e0 e1 e2 ucast_of_nat_8 ..
  have "unat (of_nat (97 + 3 * k) :: uint8_t) = (97 + 3 * k) mod 256"
    "unat (of_nat (98 + 3 * k) :: uint8_t) = (98 + 3 * k) mod 256"
    "unat (of_nat (99 + 3 * k) :: uint8_t) = (99 + 3 * k) mod 256"
    by (rule unat_of_nat_8)+
  with r(1) c(1) pa show "\<exists>w1 l1 w2 l2 b0 b1 b2.
      sender_cycles t k (w, sender_init) = Inr (w1, l1) \<and>
      sender_cycle t (w1, l1) = Inr (w2, l2) \<and>
      put_attempts (trace w2) = put_attempts (trace w1) @ [b0, b1, b2] \<and>
      unat b0 = (97 + 3 * k) mod 256 \<and> unat b1 = (98 + 3 * k) mod 256 \<and>
      unat b2 = (99 + 3 * k) mod 256"
    by blast
qed

theorem sender_cycle_bytes_witness:
  "ring_ok (buf world_init) \<and>
   (\<exists>w1 l1 w2 l2 b0 b1 b2.
      sender_cycles 1 0 (world_init, sender_init) = Inr (w1, l1) \<and>
      sender_cycle 1 (w1, l1) = Inr (w2, l2) \<and>
      put_attempts (trace w2) = put_attempts (trace w1) @ [b0, b1, b2] \<and>
      unat b0 = 97 \<and> unat b1 = 98 \<and> unat b2 = 99) \<and>
   (\<exists>w1 l1 w2 l2 b0 b1 b2.
      sender_cycles 1 1 (world_init, sender_init) = Inr (w1, l1) \<and>
      sender_cycle 1 (w1, l1) = Inr (w2, l2) \<and>
      put_attempts (trace w2) = put_attempts (trace w1) @ [b0, b1, b2] \<and>
      unat b0 = 100 \<and> unat b1 = 101 \<and> unat b2 = 102)"
proof -
  have ok: "ring_ok (buf world_init)" by (simp add: world_init_def ring_ok_init)
  from sender_cycle_bytes [OF ok, THEN conjunct2, of 1 0]
    sender_cycle_bytes [OF ok, THEN conjunct2, of 1 1] ok
  show ?thesis by simp
qed

text \<open>
  C6, as the claim states it, fails. The sender running alone from the start attempts 33
  bytes in its first eleven cycles. The byte after \<open>'z'\<close> is 0x7B, \<open>'{'\<close>, not the
  start of an alphabet again; and the last three bytes, those of cycle 10, are 0x7F
  (DEL), 0x80 and 0x81, none of them printable.
\<close>

theorem sender_bytes_counterexample:
  "sender_attempts 1 11 (world_init, sender_init) ! 25 = 0x7A \<and>
   sender_attempts 1 11 (world_init, sender_init) ! 26 = 0x7B \<and>
   drop 30 (sender_attempts 1 11 (world_init, sender_init)) = [0x7F, 0x80, 0x81] \<and>
   \<not> isprint 0x7F \<and> \<not> isprint 0x80 \<and> \<not> isprint 0x81"
  by code_simp

section \<open>main\<close>

text \<open>
  C9. When \<open>xSemaphoreCreateBinary\<close> returns \<open>NULL\<close>, \<open>main\<close> calls nothing after it:
  no \<open>xTaskCreate\<close> and no \<open>vTaskStartScheduler\<close>. A task is created, and the scheduler
  started, exactly when the handle is not \<open>NULL\<close>; then both tasks are created and the
  start of the scheduler is the last call.
\<close>

theorem main_semaphore_gate:
  "(xBinarySemaphore = NULL \<longrightarrow>
      main xBinarySemaphore = [Call_prvSetupHardware, Call_xSemaphoreCreateBinary]) \<and>
   (list_ex is_task_create (main xBinarySemaphore) \<longleftrightarrow> xBinarySemaphore \<noteq> NULL) \<and>
   (Call_vTaskStartScheduler \<in> set (main xBinarySemaphore) \<longleftrightarrow> xBinarySemaphore \<noteq> NULL) \<and>
   (xBinarySemaphore \<noteq> NULL \<longrightarrow>
      priority_of vSenderTask (main xBinarySemaphore) \<noteq> None \<and>
      priority_of vReceiverTask (main xBinarySemaphore) \<noteq> None \<and>
      last (main xBinarySemaphore) = Call_vTaskStartScheduler)"
  by (simp add: main_def)

theorem main_semaphore_gate_witness:
  "(0 :: uint32_t) = NULL \<and> main 0 = [Call_prvSetupHardware, Call_xSemaphoreCreateBinary] \<and>
   \<not> list_ex is_task_create (main 0) \<and> Call_vTaskStartScheduler \<notin> set (main 0) \<and>
   (1 :: uint32_t) \<noteq> NULL \<and> list_ex is_task_create (main 1) \<and>
   Call_vTaskStartScheduler \<in> set (main 1) \<and>
   priority_of vSenderTask (main 1) \<noteq> None \<and> priority_of vReceiverTask (main 1) \<noteq> None"
proof -
  have z: "(0 :: uint32_t) = NULL" and o: "(1 :: uint32_t) \<noteq> NULL" by (simp_all add: NULL_def)
  from main_semaphore_gate [of 0] main_semaphore_gate [of 1] z o show ?thesis by simp
qed

text \<open>
  C5, as the code has it. When the semaphore exists, \<open>main\<close> creates the two tasks with
  different fixed priorities: the sender (the producer) with 2, the receiver (the
  consumer) with 1. In FreeRTOS the larger number is the higher priority, so the
  producer's priority is the higher one.
\<close>

theorem task_priorities:
  assumes "xBinarySemaphore \<noteq> NULL"
  shows "\<exists>producer consumer.
           priority_of vSenderTask (main xBinarySemaphore) = Some producer \<and>
           priority_of vReceiverTask (main xBinarySemaphore) = Some consumer \<and>
           producer = 2 \<and> consumer = 1 \<and> producer \<noteq> consumer \<and> consumer < producer"
  using assms by (simp add: main_def)

theorem task_priorities_witness:
  "(1 :: uint32_t) \<noteq> NULL \<and>
   (\<exists>producer consumer.
      priority_of vSenderTask (main 1) = Some producer \<and>
      priority_of vReceiverTask (main 1) = Some consumer \<and>
      producer = 2 \<and> consumer = 1 \<and> producer \<noteq> consumer \<and> consumer < producer)"
proof -
  have o: "(1 :: uint32_t) \<noteq> NULL" by (simp add: NULL_def)
  from task_priorities [OF o] o show ?thesis by blast
qed

text \<open>
  C5, as the claim states it, fails: with a semaphore handle that is not \<open>NULL\<close> the
  producer is created with priority 2 and the consumer with priority 1, and 2 is not
  lower than 1.
\<close>

theorem producer_lower_counterexample:
  "priority_of vSenderTask (main 1) = Some 2 \<and> priority_of vReceiverTask (main 1) = Some 1 \<and>
   \<not> (2 :: nat) < 1"
  by (simp add: main_def NULL_def)

end
